theory Spec2Isabelle
  imports Complex_Main "HOL-Library.Word" "HOL-Library.Sublist" "HOL-Library.Multiset"
begin

unbundle bit_operations_syntax

section \<open>Python values shared by the three scripts\<close>

text \<open>
  A Python \<open>str\<close> is modelled as a HOL \<open>string\<close> (code points below 256); the
  substring test \<open>a in b\<close> is \<open>sublist a b\<close>. \<open>die(msg)\<close> prints the message and
  calls \<open>sys.exit(1)\<close>: the run ends there with \<open>Fatal msg\<close>. The other errors are the
  Python exceptions that the modelled statements can raise.
\<close>

datatype error =
    Fatal string
  | ZeroDivisionError
  | IndexError
  | ValueError
  | OverflowError
  | UnicodeEncodeError

section \<open>shuffler.py: the comment fixup pass\<close>

text \<open>
  \<open>\s\<close> of a Python \<open>str\<close> pattern, on the code points below 256: TAB to CR, FS to US,
  space, NEL and NBSP.
\<close>

definition is_space :: "char \<Rightarrow> bool" where
  "is_space c = (of_char c \<in> {9, 10, 11, 12, 13, 28, 29, 30, 31, 32, 133, 160 :: nat})"

text \<open>\<open>re.match(r"^\s*DEF\(", l)\<close> and \<open>re.match(r"^\s*#", l)\<close>.\<close>

definition match_def_open :: "string \<Rightarrow> bool" where
  "match_def_open l = prefix ''DEF('' (dropWhile is_space l)"

definition match_hash :: "string \<Rightarrow> bool" where
  "match_hash l = prefix ''#'' (dropWhile is_space l)"

text \<open>\<open>line.rstrip("\n")\<close> removes every trailing newline.\<close>

definition rstrip_nl :: "string \<Rightarrow> string" where
  "rstrip_nl line = rev (dropWhile (\<lambda>c. c = CHR ''\<newline>'') (rev line))"

text \<open>
  The two flag updates at the end of the loop body:
  \<^verbatim>\<open>
        if "/*" in l and "*/" not in l:
            inside_comment = True
        if "*/" in l:
            inside_comment = False
  \<close>
\<close>

definition comment_flag :: "bool \<Rightarrow> string \<Rightarrow> bool" where
  "comment_flag inside_comment l =
     (let inside1 = (if sublist ''/*'' l \<and> \<not> sublist ''*/'' l then True else inside_comment)
      in if sublist ''*/'' l then False else inside1)"

text \<open>One iteration of \<open>for line in lines\<close>, on the pair \<open>(fixed, inside_comment)\<close>.\<close>

definition fix_step :: "string list \<times> bool \<Rightarrow> string \<Rightarrow> string list \<times> bool" where
  "fix_step st line =
     (let fixed = fst st; inside_comment = snd st;
          l0 = rstrip_nl line;
          l = (if sublist ''*/'' l0 \<and> \<not> sublist ''/*'' l0 \<and> \<not> inside_comment
               then ''/* '' @ l0 else l0);
          closing = (inside_comment \<and> (match_def_open l \<or> match_hash l));
          fixed1 = (if closing then fixed @ ['' */\<newline>''] else fixed);
          inside1 = (if closing then False else inside_comment)
      in (fixed1 @ [l @ ''\<newline>''], comment_flag inside1 l))"

definition fix_scan :: "string list \<Rightarrow> string list \<times> bool" where
  "fix_scan lines = foldl fix_step ([], False) lines"

definition fix_multiline_trailing_comments :: "string list \<Rightarrow> string list" where
  "fix_multiline_trailing_comments lines =
     (let st = fix_scan lines
      in if snd st then fst st @ ['' */\<newline>''] else fst st)"



section \<open>gum_quick_patcher.py\<close>

definition detect_variant :: "string \<Rightarrow> error + string" where
  "detect_variant text =
     (if sublist ''gum_es_asset_new_take'' text then Inr ''2''
      else if sublist ''gum_es_asset_new'' text then Inr ''1''
      else Inl (Fatal ''Cannot detect allocator variant in gumquickcore.c''))"

section \<open>frida_builder.py: the key and sbox deriver\<close>

subsection \<open>The randomness source and hashlib\<close>

text \<open>
  The operating system's randomness is an infinite sequence of raw draws (draw number
  \<open>k\<close> is \<open>g k\<close>), consumed from the front. \<open>secrets.randbelow(n)\<close> takes one draw
  and reduces it below \<open>n\<close> (every value below \<open>n\<close> can come out); it raises
  ValueError for \<open>n = 0\<close>.
  \<open>secrets.token_bytes(n)\<close> takes \<open>n\<close> draws, one byte each.
\<close>

type_synonym byte = "8 word"

type_synonym rng = "nat \<Rightarrow> nat"

definition rng_drop :: "nat \<Rightarrow> rng \<Rightarrow> rng" where
  "rng_drop n g = (\<lambda>k. g (k + n))"

definition randbelow :: "nat \<Rightarrow> rng \<Rightarrow> error + (nat \<times> rng)" where
  "randbelow n g = (if n = 0 then Inl ValueError else Inr (g 0 mod n, rng_drop 1 g))"

definition token_bytes :: "nat \<Rightarrow> rng \<Rightarrow> byte list \<times> rng" where
  "token_bytes n g = (map (\<lambda>k. of_nat (g k)) [0..<n], rng_drop n g)"

text \<open>
  SHA-256 and SHA-512 are parameters of the model: any function from byte strings to 256
  bit and 512 bit values. \<open>.digest()\<close> is the value as 32 and 64 bytes, most significant
  byte first.
\<close>

record hashlib =
  sha256 :: "byte list \<Rightarrow> 256 word"
  sha512 :: "byte list \<Rightarrow> 512 word"

definition be_bytes :: "nat \<Rightarrow> 'a::len word \<Rightarrow> byte list" where
  "be_bytes n w = map (\<lambda>i. ucast (drop_bit (8 * (n - 1 - i)) w)) [0..<n]"

definition digest256 :: "hashlib \<Rightarrow> byte list \<Rightarrow> byte list" where
  "digest256 H m = be_bytes 32 (sha256 H m)"

definition digest512 :: "hashlib \<Rightarrow> byte list \<Rightarrow> byte list" where
  "digest512 H m = be_bytes 64 (sha512 H m)"

subsection \<open>Sequencing with exceptions\<close>

definition ebind :: "error + 'a \<Rightarrow> ('a \<Rightarrow> error + 'b) \<Rightarrow> error + 'b" where
  "ebind m f = (case m of Inl e \<Rightarrow> Inl e | Inr x \<Rightarrow> f x)"

text \<open>\<open>for r in rs: s = body(r, s)\<close>, stopping at the first exception.\<close>

fun for_each :: "('i \<Rightarrow> 's \<Rightarrow> error + 's) \<Rightarrow> 'i list \<Rightarrow> 's \<Rightarrow> error + 's" where
  "for_each body [] s = Inr s"
| "for_each body (r # rs) s = ebind (body r s) (for_each body rs)"

text \<open>\<open>xs[i], xs[j] = xs[j], xs[i]\<close> with non-negative indices.\<close>

definition swap :: "nat \<Rightarrow> nat \<Rightarrow> 'a list \<Rightarrow> error + 'a list" where
  "swap i j xs =
     (if i < length xs \<and> j < length xs then Inr (xs[i := xs ! j, j := xs ! i])
      else Inl IndexError)"

subsection \<open>The passphrase\<close>

text \<open>
  The passphrase is a Python \<open>str\<close>, here the list of its code points, since
  \<open>key.encode("utf-8")\<close> depends on them: a surrogate code point cannot be encoded.
\<close>

definition utf8_char :: "nat \<Rightarrow> error + byte list" where
  "utf8_char c =
     (if c < 0x80 then Inr [of_nat c]
      else if c < 0x800 then Inr [of_nat (0xC0 + c div 64), of_nat (0x80 + c mod 64)]
      else if 0xD800 \<le> c \<and> c < 0xE000 then Inl UnicodeEncodeError
      else if c < 0x10000 then
        Inr [of_nat (0xE0 + c div 4096), of_nat (0x80 + c div 64 mod 64),
             of_nat (0x80 + c mod 64)]
      else
        Inr [of_nat (0xF0 + c div 262144), of_nat (0x80 + c div 4096 mod 64),
             of_nat (0x80 + c div 64 mod 64), of_nat (0x80 + c mod 64)])"

fun encode_utf8 :: "nat list \<Rightarrow> error + byte list" where
  "encode_utf8 [] = Inr []"
| "encode_utf8 (c # cs) =
     ebind (utf8_char c) (\<lambda>b. ebind (encode_utf8 cs) (\<lambda>bs. Inr (b @ bs)))"

subsection \<open>The secret blob\<close>

text \<open>
  One byte of \<open>mix\<close>:
  \<^verbatim>\<open>
            n = rnd_noise[i % len(rnd_noise)]
            k = key_bytes[i % len(key_bytes)]
            mix.append((b ^ n ^ k ^ r) & 0xFF)
  \<close>
  \<open>%\<close> raises ZeroDivisionError on an empty \<open>rnd_noise\<close> or \<open>key_bytes\<close>.
\<close>

definition mix_byte :: "byte list \<Rightarrow> byte list \<Rightarrow> nat \<Rightarrow> nat \<Rightarrow> byte \<Rightarrow> error + byte" where
  "mix_byte rnd_noise key_bytes r i b =
     (if length rnd_noise = 0 then Inl ZeroDivisionError
      else if length key_bytes = 0 then Inl ZeroDivisionError
      else Inr (b XOR rnd_noise ! (i mod length rnd_noise)
                  XOR key_bytes ! (i mod length key_bytes) XOR of_nat r))"

fun mix_loop :: "byte list \<Rightarrow> byte list \<Rightarrow> nat \<Rightarrow> nat \<Rightarrow> byte list \<Rightarrow> error + byte list" where
  "mix_loop rnd_noise key_bytes r i [] = Inr []"
| "mix_loop rnd_noise key_bytes r i (b # bs) =
     ebind (mix_byte rnd_noise key_bytes r i b)
       (\<lambda>m. ebind (mix_loop rnd_noise key_bytes r (i + 1) bs) (\<lambda>ms. Inr (m # ms)))"

text \<open>The body of \<open>for r in range(rounds)\<close>, on the pair of \<open>state\<close> and the randomness.\<close>

definition mix_round :: "hashlib \<Rightarrow> byte list \<Rightarrow> nat \<Rightarrow> byte list \<times> rng \<Rightarrow> error + (byte list \<times> rng)" where
  "mix_round H key_bytes r sg =
     (let state = fst sg;
          (rnd_noise, g1) = token_bytes 32 (snd sg)
      in ebind (mix_loop rnd_noise key_bytes r 0 state)
           (\<lambda>mix.
              let (t16, g2) = token_bytes 16 g1;
                  state1 = digest512 H (mix @ t16);
                  (t8, g3) = token_bytes 8 g2
              in Inr (state1 @ digest256 H (state1 @ t8), g3)))"

text \<open>
  The body of \<open>for _ in range(len(state)//2)\<close>:
  \<^verbatim>\<open>
        i, j = secrets.randbelow(len(state)), secrets.randbelow(len(state))
        state[i], state[j] = state[j], state[i]
  \<close>
\<close>

definition scramble_step :: "nat \<Rightarrow> byte list \<times> rng \<Rightarrow> error + (byte list \<times> rng)" where
  "scramble_step u sg =
     (let state = fst sg
      in ebind (randbelow (length state) (snd sg))
           (\<lambda>(i, g1). ebind (randbelow (length state) g1)
              (\<lambda>(j, g2). ebind (swap i j state) (\<lambda>state'. Inr (state', g2)))))"

lemma length_digest512: "length (digest512 H m) = 64"
  by (simp add: digest512_def be_bytes_def)

text \<open>
  \<^verbatim>\<open>
    while len(final) < out_len:
        final.extend(hashlib.sha512(state + secrets.token_bytes(32)).digest())
  \<close>
\<close>

function stretch :: "hashlib \<Rightarrow> byte list \<Rightarrow> nat \<Rightarrow> byte list \<Rightarrow> rng \<Rightarrow> byte list \<times> rng" where
  "stretch H state out_len final g =
     (if length final < out_len
      then stretch H state out_len
             (final @ digest512 H (state @ fst (token_bytes 32 g))) (snd (token_bytes 32 g))
      else (final, g))"
  by pat_completeness auto
termination
  by (relation "measure (\<lambda>(H, state, out_len, final, g). out_len - length final)")
     (auto simp: length_digest512)

declare stretch.simps [simp del]

text \<open>
  Lines 409 to 431: from \<open>key_bytes\<close> to \<open>state\<close> and \<open>final\<close>, with the randomness that
  is left.
\<close>

definition derive_blob :: "hashlib \<Rightarrow> byte list \<Rightarrow> rng \<Rightarrow> error + (byte list \<times> byte list \<times> rng)" where
  "derive_blob H key_bytes g0 =
     ebind (randbelow 96 g0) (\<lambda>(v, g1).
     let out_len = v + 64 in
     ebind (randbelow 32 g1) (\<lambda>(ns, g2).
     let (salt, g3) = token_bytes (ns + 64) g2 in
     ebind (randbelow 48 g3) (\<lambda>(nn, g4).
     let (noise, g5) = token_bytes (nn + 86) g4;
         state0 = digest256 H (key_bytes @ salt) @ digest512 H (rev key_bytes @ noise) in
     ebind (randbelow 7 g5) (\<lambda>(nr, g6).
     let rounds = nr + 6 in
     ebind (for_each (mix_round H key_bytes) [0..<rounds] (state0, g6)) (\<lambda>(state1, g7).
     ebind (for_each scramble_step [0..<length state1 div 2] (state1, g7)) (\<lambda>(state, g8).
     let (final, g9) = stretch H state out_len [] g8
     in Inr (state, take out_len final, g9)))))))"

subsection \<open>The sbox\<close>

text \<open>The keystream cursor: \<open>prng_state\<close>, \<open>prng_idx\<close> and the randomness.\<close>

type_synonym prng = "byte list \<times> nat \<times> rng"

definition prng_byte :: "hashlib \<Rightarrow> prng \<Rightarrow> error + (byte \<times> prng)" where
  "prng_byte H p =
     (let (prng_state, prng_idx, g) = p;
          (st1, idx1, g1) =
            (if prng_idx \<ge> length prng_state
             then (digest512 H (prng_state @ fst (token_bytes 32 g)), 0, snd (token_bytes 32 g))
             else (prng_state, prng_idx, g))
      in if idx1 < length st1 then Inr (st1 ! idx1, (st1, idx1 + 1, g1))
         else Inl IndexError)"

text \<open>\<open>rounds = 5 + (prng_state[0] & 0x07)  # 5-12 rounds\<close>\<close>

definition sbox_rounds :: "byte list \<Rightarrow> error + nat" where
  "sbox_rounds prng_state =
     (case prng_state of [] \<Rightarrow> Inl IndexError | b # _ \<Rightarrow> Inr (5 + unat (b AND 0x07)))"

text \<open>
  \<^verbatim>\<open>
            j = prng_byte() % (i + 1)
            sbox[i], sbox[j] = sbox[j], sbox[i]
  \<close>
\<close>

definition fy_step :: "hashlib \<Rightarrow> nat \<Rightarrow> nat list \<times> prng \<Rightarrow> error + (nat list \<times> prng)" where
  "fy_step H i sp =
     ebind (prng_byte H (snd sp)) (\<lambda>(b, p').
       let j = unat b mod (i + 1)
       in ebind (swap i j (fst sp)) (\<lambda>sbox'. Inr (sbox', p')))"

text \<open>\<open>bytes(xs)\<close> of a list of integers raises ValueError unless all are below 256.\<close>

definition bytes_of_ints :: "nat list \<Rightarrow> error + byte list" where
  "bytes_of_ints xs =
     (if list_all (\<lambda>x. x < 256) xs then Inr (map of_nat xs) else Inl ValueError)"

text \<open>\<open>r.to_bytes(1, "little")\<close> raises OverflowError from 256 on.\<close>

definition to_bytes1 :: "nat \<Rightarrow> error + byte list" where
  "to_bytes1 r = (if r < 256 then Inr [of_nat r] else Inl OverflowError)"

text \<open>
  The body of \<open>for r in range(rounds)\<close>: one Fisher-Yates pass for \<open>i\<close> from 255 down to
  1, then the keystream is seeded again.
\<close>

definition fy_round :: "hashlib \<Rightarrow> nat \<Rightarrow> nat list \<times> prng \<Rightarrow> error + (nat list \<times> prng)" where
  "fy_round H r sp =
     ebind (for_each (fy_step H) (rev [1..<256]) sp) (\<lambda>(sbox, (prng_state, prng_idx, g)).
     ebind (bytes_of_ints (take 64 sbox)) (\<lambda>head.
     ebind (to_bytes1 r) (\<lambda>rb.
       Inr (sbox, (digest512 H (prng_state @ head @ rb), 0, g)))))"

text \<open>The seed of the keystream: \<open>hashlib.sha512(sbox_entropy).digest()\<close>.\<close>

definition sbox_seed :: "hashlib \<Rightarrow> byte list \<Rightarrow> byte list \<Rightarrow> byte list \<Rightarrow> rng \<Rightarrow> byte list \<times> rng" where
  "sbox_seed H key_bytes state final g =
     (let (t64, g1) = token_bytes 64 g;
          sbox_entropy = state @ t64 @ digest256 H final @ digest512 H key_bytes
      in (digest512 H sbox_entropy, g1))"

definition derive_sbox :: "hashlib \<Rightarrow> byte list \<Rightarrow> byte list \<Rightarrow> byte list \<Rightarrow> rng \<Rightarrow> error + nat list" where
  "derive_sbox H key_bytes state final g =
     (let sbox = [0..<256];
          (prng_state, g1) = sbox_seed H key_bytes state final g
      in ebind (sbox_rounds prng_state) (\<lambda>rounds.
         ebind (for_each (fy_round H) [0..<rounds] (sbox, (prng_state, 0, g1)))
           (\<lambda>(sbox', p). Inr sbox')))"

text \<open>Lines 408 to 462: the secret blob \<open>final\<close> and the sbox of a passphrase's bytes.\<close>

definition derive :: "hashlib \<Rightarrow> byte list \<Rightarrow> rng \<Rightarrow> error + (byte list \<times> nat list)" where
  "derive H key_bytes g =
     ebind (derive_blob H key_bytes g) (\<lambda>(state, final, g1).
     ebind (derive_sbox H key_bytes state final g1) (\<lambda>sbox. Inr (final, sbox)))"

text \<open>The value of \<open>rounds\<close> at line 457 in the same run.\<close>

definition derive_rounds :: "hashlib \<Rightarrow> byte list \<Rightarrow> rng \<Rightarrow> error + nat" where
  "derive_rounds H key_bytes g =
     ebind (derive_blob H key_bytes g) (\<lambda>(state, final, g1).
       sbox_rounds (fst (sbox_seed H key_bytes state final g1)))"

text \<open>
  \<open>generate_stuff_h\<close>, from the passphrase \<open>key\<close> to the two values that are written into
  \<open>stuff.h\<close>. \<open>None\<close> is the return at \<open>if not key: return\<close>, where nothing is derived
  or written. The checks of the file system and the operator's confirmation are outside
  the model, which is the run where the directory exists and the operator confirms.
\<close>

definition generate_stuff_h :: "hashlib \<Rightarrow> nat list \<Rightarrow> rng \<Rightarrow> error + (byte list \<times> nat list) option" where
  "generate_stuff_h H key g =
     (if key = [] then Inr None
      else ebind (encode_utf8 key) (\<lambda>key_bytes.
           ebind (derive H key_bytes g) (\<lambda>out. Inr (Some out))))"

section \<open>gum_quick_patcher.py: the patches\<close>

subsection \<open>The inserted texts\<close>

definition ENTRY_TO_ADD :: string where
  \<open>ENTRY_TO_ADD =
     ''  JS_CFUNC_DEF ("loadBytecode", 0, gumjs_script_load_bytecode),\<newline>''\<close>

definition DECLARE_LINE :: string where
  \<open>DECLARE_LINE =
     ''GUMJS_DECLARE_FUNCTION (gumjs_script_load_bytecode)\<newline>''\<close>

definition FUNC_BODY_VARIANT_1 :: string where
  \<open>FUNC_BODY_VARIANT_1 =
     ''\<newline>'' @
     ''    name_copy = g_strdup(name);\<newline>'' @
     ''    g_hash_table_insert(\<newline>'' @
     ''            es_assets,\<newline>'' @
     ''            name_copy,\<newline>'' @
     ''            gum_es_asset_new(name_copy, NULL, 0, NULL)\<newline>'' @
     ''    );\<newline>''\<close>

definition FUNC_BODY_VARIANT_2 :: string where
  \<open>FUNC_BODY_VARIANT_2 =
     ''\<newline>'' @
     ''    name_copy = g_strdup(name);\<newline>'' @
     ''    g_hash_table_insert(\<newline>'' @
     ''        es_assets,\<newline>'' @
     ''        name_copy,\<newline>'' @
     ''        gum_es_asset_new_take(name_copy, NULL, 0)\<newline>'' @
     ''    );\<newline>''\<close>

definition build_function_head :: string where
  \<open>build_function_head =
     ''\<newline>'' @
     ''GUMJS_DEFINE_FUNCTION (gumjs_script_load_bytecode)\<newline>'' @
     ''{\<newline>'' @
     ''    GHashTable * es_assets = core->program->es_assets;\<newline>'' @
     ''    const gchar * name;\<newline>'' @
     ''    JSValue byte_val, perform_init, module;\<newline>'' @
     ''    gchar * name_copy;\<newline>'' @
     ''    GumQuickModuleInitOperation * op;\<newline>'' @
     ''    GSource * gsource;\<newline>'' @
     ''\<newline>'' @
     ''    if (!_gum_quick_args_parse(args, "sOF", &name, &byte_val, &perform_init))\<newline>'' @
     ''        return JS_EXCEPTION;\<newline>'' @
     ''\<newline>'' @
     ''    if (g_hash_table_contains(es_assets, name))\<newline>'' @
     ''        return _gum_quick_throw(ctx, "module '%s' already exists", name);\<newline>'' @
     ''\<newline>'' @
     ''    uint8_t *buf = NULL;\<newline>'' @
     ''    size_t buf_len = 0;\<newline>'' @
     ''\<newline>'' @
     ''    buf = JS_GetArrayBuffer(ctx, &buf_len, byte_val);\<newline>'' @
     ''\<newline>'' @
     ''    if (buf == NULL) {\<newline>'' @
     ''        size_t byte_offset = 0;\<newline>'' @
     ''        size_t byte_length = 0;\<newline>'' @
     ''        size_t bytes_per_elem = 0;\<newline>'' @
     ''\<newline>'' @
     ''        JSValue ab = JS_GetTypedArrayBuffer(\<newline>'' @
     ''                ctx,\<newline>'' @
     ''                byte_val,\<newline>'' @
     ''                &byte_offset,\<newline>'' @
     ''                &byte_length,\<newline>'' @
     ''                &bytes_per_elem\<newline>'' @
     ''        );\<newline>'' @
     ''\<newline>'' @
     ''        if (JS_IsException(ab)) {\<newline>'' @
     ''            return _gum_quick_throw(ctx,\<newline>'' @
     ''                "expected ArrayBuffer or TypedArray containing QuickJS bytecode");\<newline>'' @
     ''        }\<newline>'' @
     ''\<newline>'' @
     ''        size_t abuf_len = 0;\<newline>'' @
     ''        uint8_t *abuf = JS_GetArrayBuffer(ctx, &abuf_len, ab);\<newline>'' @
     ''        JS_FreeValue(ctx, ab);\<newline>'' @
     ''\<newline>'' @
     ''        if (abuf == NULL) {\<newline>'' @
     ''            return _gum_quick_throw(ctx,\<newline>'' @
     ''                "invalid TypedArray: could not get underlying ArrayBuffer");\<newline>'' @
     ''        }\<newline>'' @
     ''\<newline>'' @
     ''        buf = abuf + byte_offset;\<newline>'' @
     ''        buf_len = byte_length;\<newline>'' @
     ''    }\<newline>'' @
     ''\<newline>'' @
     ''    module = JS_ReadObject(\<newline>'' @
     ''            ctx,\<newline>'' @
     ''            buf,\<newline>'' @
     ''            buf_len,\<newline>'' @
     ''            JS_READ_OBJ_BYTECODE | JS_READ_OBJ_REFERENCE | JS_READ_OBJ_SAB\<newline>'' @
     ''    );\<newline>'' @
     ''\<newline>'' @
     ''    if (JS_IsException(module)) {\<newline>'' @
     ''        return _gum_quick_script_rethrow_parse_error_with_decorations(\<newline>'' @
     ''                core->script, ctx, name);\<newline>'' @
     ''    }\<newline>''\<close>

definition build_function_tail :: string where
  \<open>build_function_tail =
     ''\<newline>'' @
     ''    op = g_slice_new(GumQuickModuleInitOperation);\<newline>'' @
     ''    op->module = module;\<newline>'' @
     ''    op->perform_init = JS_DupValue(ctx, perform_init);\<newline>'' @
     ''    op->core = core;\<newline>'' @
     ''\<newline>'' @
     ''    gsource = g_idle_source_new();\<newline>'' @
     ''    g_source_set_callback(\<newline>'' @
     ''            gsource,\<newline>'' @
     ''            (GSourceFunc) gum_quick_core_init_module,\<newline>'' @
     ''            op,\<newline>'' @
     ''            NULL\<newline>'' @
     ''    );\<newline>'' @
     ''    g_source_attach(\<newline>'' @
     ''            gsource,\<newline>'' @
     ''            gum_script_scheduler_get_js_context(core->scheduler)\<newline>'' @
     ''    );\<newline>'' @
     ''    g_source_unref(gsource);\<newline>'' @
     ''\<newline>'' @
     ''    _gum_quick_core_pin(core);\<newline>'' @
     ''\<newline>'' @
     ''    return JS_UNDEFINED;\<newline>'' @
     ''}\<newline>''\<close>

text \<open>
  \<open>build_function\<close> is \<open>head + variant_body + tail.lstrip("\n")\<close>: the method call
  binds tighter than \<open>+\<close>, so only the last literal loses its leading newline and the
  result starts with the newline of the first one.
\<close>

definition lstrip_nl :: "string \<Rightarrow> string" where
  "lstrip_nl s = dropWhile (\<lambda>c. c = CHR ''\<newline>'') s"

definition build_function :: "string \<Rightarrow> string" where
  "build_function variant_body =
     build_function_head @ variant_body @ lstrip_nl build_function_tail"

subsection \<open>Searching\<close>

text \<open>
  \<open>text.find(sub, start)\<close> for \<open>start \<ge> 0\<close>: the lowest index from \<open>start\<close> on where
  \<open>sub\<close> occurs, or -1.
\<close>

fun first_occurrence :: "'a list \<Rightarrow> 'a list \<Rightarrow> nat option" where
  "first_occurrence sub [] = (if sub = [] then Some 0 else None)"
| "first_occurrence sub (c # cs) =
     (if prefix sub (c # cs) then Some 0 else map_option Suc (first_occurrence sub cs))"

definition find_str :: "string \<Rightarrow> string \<Rightarrow> nat \<Rightarrow> int" where
  "find_str text sub start =
     (if length text < start then - 1
      else case first_occurrence sub (drop start text) of
             None \<Rightarrow> - 1
           | Some i \<Rightarrow> int (start + i))"

text \<open>
  The loop of \<open>find_matching_brace\<close>, on \<open>depth\<close> and \<open>i\<close>:
  \<^verbatim>\<open>
    while i < len(text):
        if text[i] == "{":
            depth += 1
        elif text[i] == "}":
            depth -= 1
            if depth == 0:
                return i
        i += 1
    return -1
  \<close>
\<close>

function brace_loop :: "string \<Rightarrow> int \<Rightarrow> nat \<Rightarrow> int" where
  "brace_loop text depth i =
     (if i < length text then
        (if text ! i = CHR ''{'' then brace_loop text (depth + 1) (i + 1)
         else if text ! i = CHR ''}'' then
           (if depth - 1 = 0 then int i else brace_loop text (depth - 1) (i + 1))
         else brace_loop text depth (i + 1))
      else - 1)"
  by pat_completeness auto
termination
  by (relation "measure (\<lambda>(text, depth, i). length text - i)") auto

declare brace_loop.simps [simp del]

text \<open>
  The callers pass the result of \<open>find\<close>, which is at least -1, so \<open>i\<close> starts at a
  non-negative index.
\<close>

definition find_matching_brace :: "string \<Rightarrow> int \<Rightarrow> int" where
  "find_matching_brace text open_pos = brace_loop text 1 (nat (open_pos + 1))"

text \<open>\<open>text[:insert_pos] + new + text[insert_pos:]\<close> for \<open>insert_pos \<ge> 0\<close>.\<close>

definition insert_at :: "int \<Rightarrow> string \<Rightarrow> string \<Rightarrow> string" where
  "insert_at insert_pos new text = take (nat insert_pos) text @ new @ drop (nat insert_pos) text"

subsection \<open>The three patches and \<open>main\<close>\<close>

definition patch_entry :: "string \<Rightarrow> error + string" where
  "patch_entry text =
     (if \<not> sublist ENTRY_TO_ADD text then
        (let marker = ''static const JSCFunctionListEntry gumjs_script_entries[] ='';
             mpos = find_str text marker 0
         in if mpos = - 1 then Inl (Fatal ''gumjs_script_entries not found'')
            else
              (let open_brace = find_str text ''{'' (nat mpos)
               in if open_brace = - 1
                  then Inl (Fatal ''Opening brace for gumjs_script_entries not found'')
                  else
                    (let close_brace = find_matching_brace text open_brace
                     in if close_brace = - 1
                        then Inl (Fatal ''Closing brace for gumjs_script_entries not found'')
                        else Inr (insert_at close_brace ENTRY_TO_ADD text))))
      else Inr text)"

definition patch_declaration :: "string \<Rightarrow> error + string" where
  "patch_declaration text =
     (if \<not> sublist DECLARE_LINE text then
        (let anchor = ''GUMJS_DECLARE_FUNCTION (gumjs_script_unbind_weak)'';
             idx = find_str text anchor 0
         in if idx = - 1 then Inl (Fatal ''Declaration anchor not found'')
            else
              (let insert_pos = find_str text ''\<newline>'' (nat idx) + 1
               in Inr (insert_at insert_pos DECLARE_LINE text)))
      else Inr text)"

definition patch_implementation :: "string \<Rightarrow> string \<Rightarrow> error + string" where
  "patch_implementation function_impl text =
     (if \<not> sublist ''GUMJS_DEFINE_FUNCTION (gumjs_script_load_bytecode)'' text then
        (let anchor = ''GUMJS_DEFINE_FUNCTION (gumjs_script_unbind_weak)'';
             idx = find_str text anchor 0
         in if idx = - 1 then Inl (Fatal ''Function anchor not found'')
            else
              (let open_brace = find_str text ''{'' (nat idx);
                   close_brace = find_matching_brace text open_brace
               in if close_brace = - 1
                  then Inl (Fatal ''Failed to locate end of anchor function'')
                  else
                    (let insert_pos = close_brace + 1
                     in Inr (insert_at insert_pos
                          (''\<newline>\<newline>'' @ function_impl @ ''\<newline>'') text))))
      else Inr text)"

text \<open>
  \<open>main\<close> from the text it has read to the text it writes back; an \<open>Inl\<close> is a
  \<open>die\<close>, which exits before \<open>write_text\<close>.
\<close>

definition main :: "string \<Rightarrow> error + string" where
  "main text =
     ebind (detect_variant text) (\<lambda>variant.
       let function_impl =
             (if variant = ''1'' then build_function FUNC_BODY_VARIANT_1
              else build_function FUNC_BODY_VARIANT_2)
       in ebind (patch_entry text) (\<lambda>text1.
          ebind (patch_declaration text1) (\<lambda>text2.
            patch_implementation function_impl text2)))"

text \<open>The target file after a run of the script on it.\<close>

definition run_patcher :: "string \<Rightarrow> string" where
  "run_patcher file = (case main file of Inl e \<Rightarrow> file | Inr text \<Rightarrow> text)"

text \<open>A small source in the shape of \<open>gumquickcore.c\<close>, not yet patched.\<close>

definition sample_source :: string where
  \<open>sample_source =
     ''GUMJS_DECLARE_FUNCTION (gumjs_script_unbind_weak)\<newline>'' @
     ''static const JSCFunctionListEntry gumjs_script_entries[] =\<newline>'' @
     ''{\<newline>'' @
     ''  JS_CFUNC_DEF ("unbindWeak", 0, gumjs_script_unbind_weak),\<newline>'' @
     ''};\<newline>'' @
     ''GUMJS_DEFINE_FUNCTION (gumjs_script_unbind_weak)\<newline>'' @
     ''{\<newline>'' @
     ''  if (id == 0) { gum_es_asset_new (name, NULL, 0, NULL); }\<newline>'' @
     ''}\<newline>''\<close>

text \<open>
  Two more: one with the entry list alone, and one with the entry list and the declaration
  anchor, both with a variant marker.
\<close>

definition entries_only_source :: string where
  \<open>entries_only_source =
     ''static const JSCFunctionListEntry gumjs_script_entries[] =\<newline>'' @
     ''{\<newline>'' @
     ''};\<newline>'' @
     ''gum_es_asset_new_take (name, NULL, 0);\<newline>''\<close>

definition no_function_source :: string where
  \<open>no_function_source =
     ''GUMJS_DECLARE_FUNCTION (gumjs_script_unbind_weak)\<newline>'' @
     entries_only_source\<close>

section \<open>shuffler.py: the groups\<close>

subsection \<open>The \<open>random\<close> module\<close>






subsection \<open>Lists\<close>



subsection \<open>Opcode names\<close>





subsection \<open>Groups\<close>







subsection \<open>The steps of one group\<close>












section \<open>Proofs: the comment fixup pass\<close>




text \<open>
  C8 (as the code has it). On the two lines \<open>/* note\<close> and \<open>DEF(x,1)\<close> the pass writes
  the closing token as a line of its own, \<open> */\<close>, between the comment line and the
  definition line: three lines come out, and the comment line itself is unchanged.
\<close>

theorem fix_scenario_c:
  "fix_multiline_trailing_comments [''/* note\<newline>'', ''DEF(x,1)\<newline>''] =
     [''/* note\<newline>'', '' */\<newline>'', ''DEF(x,1)\<newline>''] \<and>
   concat (fix_multiline_trailing_comments [''/* note\<newline>'', ''DEF(x,1)\<newline>'']) =
     ''/* note\<newline> */\<newline>DEF(x,1)\<newline>''"
  by code_simp

text \<open>The output that C8 states, with the closer on the comment line, is not what is written.\<close>

theorem fix_scenario_c_counterexample:
  "concat (fix_multiline_trailing_comments [''/* note\<newline>'', ''DEF(x,1)\<newline>'']) \<noteq>
     ''/* note */\<newline>DEF(x,1)\<newline>''"
  by code_simp




section \<open>Proofs: variant detection\<close>

lemma take_contains_new:
  assumes "sublist ''gum_es_asset_new_take'' t"
  shows "sublist ''gum_es_asset_new'' t"
proof -
  have "sublist ''gum_es_asset_new'' ''gum_es_asset_new_take''"
    by (simp add: sublist_Cons_right)
  then show ?thesis using assms by (meson sublist_order.order.trans)
qed

text \<open>
  C9. A buffer with \<open>gum_es_asset_new_take\<close> gives variant 2, and has
  \<open>gum_es_asset_new\<close> in it as well; variant 1 is given exactly for the buffers with
  \<open>gum_es_asset_new\<close> and without \<open>gum_es_asset_new_take\<close>; every other buffer ends the
  run.
\<close>

theorem detect_variant_cases:
  "(sublist ''gum_es_asset_new_take'' text \<longrightarrow>
      detect_variant text = Inr ''2'' \<and> sublist ''gum_es_asset_new'' text) \<and>
   (detect_variant text = Inr ''1'' \<longleftrightarrow>
      sublist ''gum_es_asset_new'' text \<and> \<not> sublist ''gum_es_asset_new_take'' text) \<and>
   (\<not> sublist ''gum_es_asset_new'' text \<longrightarrow>
      detect_variant text = Inl (Fatal ''Cannot detect allocator variant in gumquickcore.c''))"
  using take_contains_new [of "text"] by (auto simp: detect_variant_def)

theorem detect_variant_cases_witness:
  "sublist ''gum_es_asset_new_take'' ''x = gum_es_asset_new_take (a);'' \<and>
   detect_variant ''x = gum_es_asset_new_take (a);'' = Inr ''2'' \<and>
   detect_variant ''x = gum_es_asset_new (a);'' = Inr ''1'' \<and>
   \<not> sublist ''gum_es_asset_new'' ''x = g_malloc (a);'' \<and>
   detect_variant ''x = g_malloc (a);'' =
     Inl (Fatal ''Cannot detect allocator variant in gumquickcore.c'')"
proof -
  have a: "sublist ''gum_es_asset_new_take'' ''x = gum_es_asset_new_take (a);''" by code_simp
  have b: "sublist ''gum_es_asset_new'' ''x = gum_es_asset_new (a);''" by code_simp
  have c: "\<not> sublist ''gum_es_asset_new_take'' ''x = gum_es_asset_new (a);''" by code_simp
  have d: "\<not> sublist ''gum_es_asset_new'' ''x = g_malloc (a);''" by code_simp
  show ?thesis
    using detect_variant_cases [of "''x = gum_es_asset_new_take (a);''"]
      detect_variant_cases [of "''x = gum_es_asset_new (a);''"]
      detect_variant_cases [of "''x = g_malloc (a);''"] a b c d
    by blast
qed

section \<open>Proofs: the deriver\<close>

lemma ebind_Inr [simp]: "ebind (Inr x) f = f x"
  by (simp add: ebind_def)

lemma ebind_Inl [simp]: "ebind (Inl e) f = Inl e"
  by (simp add: ebind_def)

lemma ebind_eq_Inr: "ebind m f = Inr y \<longleftrightarrow> (\<exists>x. m = Inr x \<and> f x = Inr y)"
  by (cases m) simp_all

lemma for_each_inv:
  assumes "P s"
    and "\<And>r s. r \<in> set rs \<Longrightarrow> P s \<Longrightarrow> \<exists>s'. body r s = Inr s' \<and> P s'"
  shows "\<exists>s'. for_each body rs s = Inr s' \<and> P s'"
  using assms
proof (induction rs arbitrary: s)
  case Nil
  then show ?case by simp
next
  case (Cons r rs)
  from Cons.prems obtain s1 where s1: "body r s = Inr s1" "P s1"
    by (meson list.set_intros(1))
  have "\<exists>s'. for_each body rs s1 = Inr s' \<and> P s'"
    by (rule Cons.IH [OF s1(2)]) (simp add: Cons.prems(2))
  with s1 show ?case by simp
qed

lemma swap_ok:
  assumes "i < length xs" "j < length xs"
  shows "\<exists>ys. swap i j xs = Inr ys \<and> mset ys = mset xs \<and> length ys = length xs"
  using assms by (simp add: swap_def mset_swap)

lemma swap_mset: "swap i j xs = Inr ys \<Longrightarrow> mset ys = mset xs"
  by (auto simp: swap_def mset_swap split: if_splits)

lemma randbelow_pos: "0 < n \<Longrightarrow> randbelow n g = Inr (g 0 mod n, rng_drop 1 g)"
  by (simp add: randbelow_def)

lemma length_token_bytes: "length (fst (token_bytes n g)) = n"
  by (simp add: token_bytes_def)

lemma length_digest256: "length (digest256 H m) = 32"
  by (simp add: digest256_def be_bytes_def)

lemma mix_loop_ok:
  assumes "key_bytes \<noteq> []" "rnd_noise \<noteq> []"
  shows "\<exists>ms. mix_loop rnd_noise key_bytes r i bs = Inr ms \<and> length ms = length bs"
proof (induction bs arbitrary: i)
  case Nil
  show ?case by simp
next
  case (Cons b bs)
  from Cons [of "i + 1"] obtain ms where "mix_loop rnd_noise key_bytes r (i + 1) bs = Inr ms"
    "length ms = length bs" by blast
  then show ?case using assms by (simp add: mix_byte_def)
qed

lemma mix_round_ok:
  assumes "key_bytes \<noteq> []"
  shows "\<exists>s'. mix_round H key_bytes r s = Inr s' \<and> length (fst s') = 96"
proof -
  have "fst (token_bytes 32 (snd s)) \<noteq> []"
    using length_token_bytes [of 32 "snd s"] by auto
  from mix_loop_ok [OF assms this, of r 0 "fst s"]
  obtain ms where "mix_loop (fst (token_bytes 32 (snd s))) key_bytes r 0 (fst s) = Inr ms"
    by blast
  then show ?thesis
    by (simp add: mix_round_def Let_def split_def length_digest512 length_digest256)
qed

lemma scramble_step_ok:
  assumes "length (fst s) = 96"
  shows "\<exists>s'. scramble_step u s = Inr s' \<and> length (fst s') = 96"
proof -
  let ?i = "snd s 0 mod 96" and ?j = "rng_drop 1 (snd s) 0 mod 96"
  have "?i < length (fst s)" "?j < length (fst s)" using assms by simp_all
  from swap_ok [OF this] obtain ys where "swap ?i ?j (fst s) = Inr ys" "length ys = 96"
    using assms by auto
  then show ?thesis using assms
    by (simp add: scramble_step_def Let_def randbelow_pos)
qed

lemma stretch_length: "out_len \<le> length (fst (stretch H state out_len final g))"
proof (induction H state out_len final g rule: stretch.induct)
  case (1 H state out_len final g)
  show ?case
  proof (cases "length final < out_len")
    case True
    with 1 show ?thesis by (subst stretch.simps) simp
  next
    case False
    then show ?thesis by (subst stretch.simps) simp
  qed
qed


lemma mix_rounds_ok:
  assumes "key_bytes \<noteq> []" "length (fst s) = 96"
  shows "\<exists>s'. for_each (mix_round H key_bytes) rs s = Inr s' \<and> length (fst s') = 96"
  by (rule for_each_inv [where P = "\<lambda>s. length (fst s) = 96"])
     (use assms mix_round_ok in blast)+

lemma scramble_ok:
  assumes "length (fst s) = 96"
  shows "\<exists>s'. for_each scramble_step rs s = Inr s' \<and> length (fst s') = 96"
  by (rule for_each_inv [where P = "\<lambda>s. length (fst s) = 96"])
     (use assms scramble_step_ok in blast)+


lemma derive_blob_ok:
  assumes "key_bytes \<noteq> []"
  shows "\<exists>state final g'. derive_blob H key_bytes g = Inr (state, final, g') \<and>
           length final = 64 + g 0 mod 96"
proof -
  define out_len where "out_len = g 0 mod 96 + 64"
  define g2 where "g2 = rng_drop 1 (rng_drop 1 g)"
  define ns where "ns = rng_drop 1 g 0 mod 32"
  define salt where "salt = fst (token_bytes (ns + 64) g2)"
  define g3 where "g3 = snd (token_bytes (ns + 64) g2)"
  define nn where "nn = g3 0 mod 48"
  define noise where "noise = fst (token_bytes (nn + 86) (rng_drop 1 g3))"
  define g5 where "g5 = snd (token_bytes (nn + 86) (rng_drop 1 g3))"
  define state0 where
    "state0 = digest256 H (key_bytes @ salt) @ digest512 H (rev key_bytes @ noise)"
  define rounds where "rounds = g5 0 mod 7 + 6"
  define g6 where "g6 = rng_drop 1 g5"
  have fin: "\<And>state g. length (take out_len (fst (stretch H state out_len [] g))) = out_len"
    by (simp add: min_absorb2 stretch_length)
  have unf: "derive_blob H key_bytes g =
      ebind (for_each (mix_round H key_bytes) [0..<rounds] (state0, g6)) (\<lambda>(state1, g7).
      ebind (for_each scramble_step [0..<length state1 div 2] (state1, g7)) (\<lambda>(state, g8).
      let (final, g9) = stretch H state out_len [] g8
      in Inr (state, take out_len final, g9)))"
    unfolding derive_blob_def out_len_def g2_def ns_def salt_def g3_def nn_def noise_def
      g5_def state0_def rounds_def g6_def
    by (simp add: randbelow_pos Let_def split_def)
  have l0: "length (fst (state0, g6)) = 96"
    by (simp add: state0_def length_digest512 length_digest256)
  from mix_rounds_ok [OF assms l0, of H "[0..<rounds]"]
  obtain state1 g7 where m: "for_each (mix_round H key_bytes) [0..<rounds] (state0, g6) = Inr (state1, g7)"
    and l1: "length (fst (state1, g7)) = 96" by auto
  from scramble_ok [OF l1, of "[0..<length state1 div 2]"]
  obtain state g8 where sc: "for_each scramble_step [0..<length state1 div 2] (state1, g7) = Inr (state, g8)"
    by auto
  have "derive_blob H key_bytes g =
      Inr (state, take out_len (fst (stretch H state out_len [] g8)), snd (stretch H state out_len [] g8))"
    by (simp add: unf m sc split_def Let_def)
  moreover have "length (take out_len (fst (stretch H state out_len [] g8))) = 64 + g 0 mod 96"
    using fin by (simp add: out_len_def)
  ultimately show ?thesis by blast
qed


lemma mix_round_empty_key:
  assumes "fst s \<noteq> []"
  shows "mix_round H [] r s = Inl ZeroDivisionError"
proof -
  obtain b bs where "fst s = b # bs" using assms by (cases "fst s") auto
  then show ?thesis
    by (simp add: mix_round_def Let_def split_def mix_byte_def)
qed

lemma digest256_nonempty: "digest256 H m @ bs \<noteq> []"
  using length_digest256 [of H m] by auto

lemma derive_blob_empty_key: "derive_blob H [] g = Inl ZeroDivisionError"
proof -
  have up: "\<And>n. [0..<n + 6] = 0 # [Suc 0..<n + 6]" by (simp add: upt_conv_Cons)
  have mr: "\<And>m bs g. mix_round H [] 0 (digest256 H m @ bs, g) = Inl ZeroDivisionError"
    by (rule mix_round_empty_key) (use digest256_nonempty in simp)
  show ?thesis
    unfolding derive_blob_def
    by (simp add: randbelow_pos Let_def split_def up mr)
qed

lemma prng_byte_ok: "\<exists>b p'. prng_byte H p = Inr (b, p')"
  by (cases p) (simp add: prng_byte_def Let_def length_digest512)

lemma fy_step_ok:
  assumes "i < length (fst sp)"
  shows "\<exists>sp'. fy_step H i sp = Inr sp' \<and> mset (fst sp') = mset (fst sp)"
proof -
  obtain b p' where p: "prng_byte H (snd sp) = Inr (b, p')"
    using prng_byte_ok by blast
  have "unat b mod (i + 1) < i + 1" by simp
  with assms have "unat b mod (i + 1) < length (fst sp)" by linarith
  from swap_ok [OF assms this] obtain ys where
    "swap i (unat b mod (i + 1)) (fst sp) = Inr ys" "mset ys = mset (fst sp)" by blast
  then show ?thesis by (simp add: fy_step_def p Let_def)
qed

lemma fy_pass_ok:
  assumes "mset (fst sp) = mset [0..<256]"
  shows "\<exists>sp'. for_each (fy_step H) (rev [1..<256]) sp = Inr sp' \<and>
           mset (fst sp') = mset [0..<256]"
proof (rule for_each_inv [where P = "\<lambda>sp. mset (fst sp) = mset [0..<256]"])
  show "mset (fst sp) = mset [0..<256]" by (rule assms)
next
  fix r and s :: "nat list \<times> prng"
  assume r: "r \<in> set (rev [1..<256])" and s: "mset (fst s) = mset [0..<256]"
  have "length (fst s) = length [0..<(256::nat)]" by (rule mset_eq_length [OF s])
  then have l: "length (fst s) = 256" by (simp only: length_upt minus_nat.diff_0)
  have "r < 256" using r by (simp only: set_rev set_upt atLeastLessThan_iff)
  then have "r < length (fst s)" using l by simp
  from fy_step_ok [OF this, of H] s
  show "\<exists>s'. fy_step H r s = Inr s' \<and> mset (fst s') = mset [0..<256]" by metis
qed

lemma bytes_of_ints_ok:
  assumes "mset sbox = mset [0..<256]"
  shows "bytes_of_ints (take n sbox) = Inr (map of_nat (take n sbox))"
proof -
  have "set sbox = set [0..<(256::nat)]" by (rule mset_eq_setD [OF assms])
  then have "\<And>x. x \<in> set sbox \<Longrightarrow> x < 256" by (simp only: set_upt atLeastLessThan_iff)
  then have "\<forall>x\<in>set (take n sbox). x < 256"
    by (meson in_set_takeD)
  then show ?thesis by (simp add: bytes_of_ints_def list_all_iff)
qed

lemma fy_round_ok:
  assumes "r < 256" "mset (fst sp) = mset [0..<256]"
  shows "\<exists>sp'. fy_round H r sp = Inr sp' \<and> mset (fst sp') = mset [0..<256]"
proof -
  from fy_pass_ok [OF assms(2), of H] obtain sp1 where
    p: "for_each (fy_step H) (rev [1..<256]) sp = Inr sp1"
    and m: "mset (fst sp1) = mset [0..<256]" by blast
  obtain sbox prng_state prng_idx g where sp1: "sp1 = (sbox, (prng_state, prng_idx, g))"
    by (cases sp1) auto
  have m': "mset sbox = mset [0..<256]" using m unfolding sp1 fst_conv .
  have "fy_round H r sp =
      Inr (sbox, (digest512 H (prng_state @ map of_nat (take 64 sbox) @ [of_nat r]), 0, g))"
    unfolding fy_round_def p sp1
    by (simp add: bytes_of_ints_ok [OF m'] to_bytes1_def assms(1))
  then show ?thesis using m' by (metis fst_conv)
qed

lemma and7_le: "unat ((b :: byte) AND 0x07) \<le> 7"
proof -
  have "unat (b AND 7) \<le> unat (7 :: byte)"
    by (rule word_and_le1 [THEN word_le_nat_alt [THEN iffD1]])
  then show ?thesis by simp
qed

lemma sbox_rounds_Cons: "sbox_rounds (b # bs) = Inr (5 + unat (b AND 0x07))"
  by (simp add: sbox_rounds_def)

lemma sbox_rounds_digest:
  "\<exists>n. sbox_rounds (digest512 H m) = Inr n \<and> 5 \<le> n \<and> n \<le> 12"
proof -
  obtain b bs where d: "digest512 H m = b # bs"
    using length_digest512 [of H m] by (cases "digest512 H m") auto
  have "5 + unat (b AND 0x07) \<le> 12" using and7_le [of b] by linarith
  then show ?thesis unfolding d sbox_rounds_Cons by simp
qed

lemma fst_sbox_seed: "\<exists>e. fst (sbox_seed H key_bytes state final g) = digest512 H e"
  by (auto simp: sbox_seed_def Let_def split_def)

lemma fy_rounds_ok:
  assumes "rounds \<le> 12" "mset (fst sp) = mset [0..<256]"
  shows "\<exists>sp'. for_each (fy_round H) [0..<rounds] sp = Inr sp' \<and>
           mset (fst sp') = mset [0..<256]"
proof (rule for_each_inv [where P = "\<lambda>sp. mset (fst sp) = mset [0..<256]"])
  show "mset (fst sp) = mset [0..<256]" by (rule assms(2))
next
  fix r and s :: "nat list \<times> prng"
  assume "r \<in> set [0..<rounds]" and s: "mset (fst s) = mset [0..<256]"
  then have "r < 256" using assms(1) by simp
  from fy_round_ok [OF this s]
  show "\<exists>s'. fy_round H r s = Inr s' \<and> mset (fst s') = mset [0..<256]" .
qed

lemma derive_sbox_ok:
  "\<exists>sbox. derive_sbox H key_bytes state final g = Inr sbox \<and> mset sbox = mset [0..<256]"
proof -
  obtain prng_state g1 where sd: "sbox_seed H key_bytes state final g = (prng_state, g1)"
    by (cases "sbox_seed H key_bytes state final g")
  obtain e where "prng_state = digest512 H e"
    using fst_sbox_seed [of H key_bytes state final g] sd by auto
  with sbox_rounds_digest [of H e] obtain rounds where
    rd: "sbox_rounds prng_state = Inr rounds" "rounds \<le> 12" by auto
  have "mset (fst ([0..<256], (prng_state, 0::nat, g1))) = mset [0..<256]"
    unfolding fst_conv ..
  from fy_rounds_ok [OF rd(2) this, of H] obtain sp' where
    f: "for_each (fy_round H) [0..<rounds] ([0..<256], (prng_state, 0, g1)) = Inr sp'"
    and m: "mset (fst sp') = mset [0..<256]" by blast
  have "derive_sbox H key_bytes state final g = Inr (fst sp')"
    unfolding derive_sbox_def Let_def sd prod.case rd(1) ebind_Inr f
    by (simp add: split_def)
  with m show ?thesis by blast
qed

lemma derive_ok:
  assumes "key_bytes \<noteq> []"
  shows "\<exists>blob sbox. derive H key_bytes g = Inr (blob, sbox) \<and>
           length blob = 64 + g 0 mod 96 \<and> mset sbox = mset [0..<256]"
proof -
  from derive_blob_ok [OF assms, of H g] obtain state final g' where
    b: "derive_blob H key_bytes g = Inr (state, final, g')" "length final = 64 + g 0 mod 96"
    by blast
  from derive_sbox_ok [of H key_bytes state final g'] obtain sbox where
    s: "derive_sbox H key_bytes state final g' = Inr sbox" "mset sbox = mset [0..<256]"
    by blast
  have "derive H key_bytes g = Inr (final, sbox)"
    unfolding derive_def b(1) ebind_Inr prod.case s(1) ..
  with b(2) s(2) show ?thesis by blast
qed

lemma derive_empty_key: "derive H [] g = Inl ZeroDivisionError"
  unfolding derive_def derive_blob_empty_key ebind_Inl ..

lemma derive_result:
  assumes "derive H key_bytes g = Inr (blob, sbox)"
  shows "length blob = 64 + g 0 mod 96 \<and> mset sbox = mset [0..<256]"
proof (cases "key_bytes = []")
  case True
  with assms show ?thesis by (simp add: derive_empty_key)
next
  case False
  from derive_ok [OF False, of H g] assms show ?thesis by auto
qed

lemma sort_perm: "mset xs = mset [0..<256] \<Longrightarrow> sort xs = [0..<256]"
  by (metis properties_for_sort sorted_upt)

text \<open>
  C1. A derivation from a non-empty passphrase ends with an sbox, and the sbox of every
  derivation that ends is a permutation of 0..255: sorted, it is the list 0, 1, ..., 255.
  Every swap of two positions keeps that property.
\<close>

theorem sbox_permutation:
  "(key_bytes \<noteq> [] \<longrightarrow>
      (\<exists>blob sbox. derive H key_bytes g = Inr (blob, sbox) \<and> sort sbox = [0..<256])) \<and>
   (\<forall>blob sbox. derive H key_bytes g = Inr (blob, sbox) \<longrightarrow> sort sbox = [0..<256]) \<and>
   (\<forall>i j xs ys. swap i j xs = Inr ys \<and> sort xs = [0..<256] \<longrightarrow> sort ys = [0..<256])"
proof (intro conjI impI allI)
  assume "key_bytes \<noteq> []"
  from derive_ok [OF this, of H g]
  show "\<exists>blob sbox. derive H key_bytes g = Inr (blob, sbox) \<and> sort sbox = [0..<256]"
    using sort_perm by blast
next
  fix blob sbox
  assume "derive H key_bytes g = Inr (blob, sbox)"
  from derive_result [OF this] show "sort sbox = [0..<256]" by (simp only: sort_perm)
next
  fix i j and xs ys :: "nat list"
  assume a: "swap i j xs = Inr ys \<and> sort xs = [0..<256]"
  then have "mset xs = mset [0..<256]" by (metis mset_sort)
  moreover have "mset ys = mset xs" using a swap_mset by blast
  ultimately show "sort ys = [0..<256]" by (simp only: sort_perm)
qed

text \<open>
  The theorem at a one-byte passphrase, a toy hash and the draws 0, 1, 2, ...; and at the
  swap of the first two entries of the identity sbox.
\<close>

theorem sbox_permutation_witness:
  "(\<exists>blob sbox.
      derive \<lparr>sha256 = of_nat \<circ> length, sha512 = of_nat \<circ> length\<rparr> [1] id = Inr (blob, sbox) \<and>
      sort sbox = [0..<256]) \<and>
   (\<exists>ys. swap 0 1 [0..<256] = Inr ys \<and> sort ys = [0..<256])"
proof -
  have k: "[1 :: byte] \<noteq> []" by simp
  have s: "sort [0..<256] = [0..<(256::nat)]" by (rule sorted_sort_id) simp
  obtain ys where y: "swap 0 1 [0..<(256::nat)] = Inr ys"
    using swap_ok [of 0 "[0..<(256::nat)]" 1] by auto
  show ?thesis
    using sbox_permutation [of "[1]" "\<lparr>sha256 = of_nat \<circ> length, sha512 = of_nat \<circ> length\<rparr>" id]
      k s y by blast
qed

text \<open>
  C4. A derivation from a non-empty passphrase ends, and the secret blob of every
  derivation that ends has exactly the target length, 64 plus the first draw reduced below
  96: at least 64 and below 160.
\<close>

theorem blob_length:
  "(key_bytes \<noteq> [] \<longrightarrow> (\<exists>blob sbox. derive H key_bytes g = Inr (blob, sbox))) \<and>
   (\<forall>blob sbox. derive H key_bytes g = Inr (blob, sbox) \<longrightarrow>
      length blob = 64 + g 0 mod 96 \<and> 64 \<le> length blob \<and> length blob < 160)"
proof (intro conjI impI allI)
  assume "key_bytes \<noteq> []"
  from derive_ok [OF this, of H g]
  show "\<exists>blob sbox. derive H key_bytes g = Inr (blob, sbox)" by blast
next
  fix blob sbox
  assume d: "derive H key_bytes g = Inr (blob, sbox)"
  from derive_result [OF d] show "length blob = 64 + g 0 mod 96" by simp
  then show "64 \<le> length blob" by simp
  have "g 0 mod 96 < 96" by simp
  with derive_result [OF d] show "length blob < 160" by linarith
qed

theorem blob_length_witness:
  "\<exists>blob sbox.
      derive \<lparr>sha256 = of_nat \<circ> length, sha512 = of_nat \<circ> length\<rparr> [1] id = Inr (blob, sbox) \<and>
      length blob = 64 \<and> 64 \<le> length blob \<and> length blob < 160"
proof -
  have k: "[1 :: byte] \<noteq> []" by simp
  have g: "64 + id 0 mod 96 = (64 :: nat)" by simp
  show ?thesis
    using blob_length [of "[1]" "\<lparr>sha256 = of_nat \<circ> length, sha512 = of_nat \<circ> length\<rparr>" id]
      k unfolding g by blast
qed

lemma derive_rounds_ok:
  assumes "key_bytes \<noteq> []"
  shows "\<exists>n. derive_rounds H key_bytes g = Inr n"
proof -
  from derive_blob_ok [OF assms, of H g] obtain state final g' where
    b: "derive_blob H key_bytes g = Inr (state, final, g')" by blast
  obtain e where e: "fst (sbox_seed H key_bytes state final g') = digest512 H e"
    using fst_sbox_seed by blast
  from sbox_rounds_digest [of H e] obtain n where "sbox_rounds (digest512 H e) = Inr n"
    by blast
  then have "derive_rounds H key_bytes g = Inr n"
    unfolding derive_rounds_def b ebind_Inr prod.case e .
  then show ?thesis ..
qed

lemma derive_rounds_range:
  assumes "derive_rounds H key_bytes g = Inr n"
  shows "5 \<le> n \<and> n \<le> 12"
proof -
  from assms obtain state final g' where
    b: "derive_blob H key_bytes g = Inr (state, final, g')"
    and r: "sbox_rounds (fst (sbox_seed H key_bytes state final g')) = Inr n"
    unfolding derive_rounds_def ebind_eq_Inr by auto
  obtain e where e: "fst (sbox_seed H key_bytes state final g') = digest512 H e"
    using fst_sbox_seed by blast
  from sbox_rounds_digest [of H e] r show ?thesis unfolding e by auto
qed

text \<open>
  C7 (as the code has it). The number of Fisher-Yates passes is 5 plus the low three bits
  of the first keystream byte: at least 5 and at most 12, with 12 included.
\<close>

theorem sbox_rounds_range:
  "(key_bytes \<noteq> [] \<longrightarrow> (\<exists>n. derive_rounds H key_bytes g = Inr n)) \<and>
   (\<forall>n. derive_rounds H key_bytes g = Inr n \<longrightarrow> 5 \<le> n \<and> n \<le> 12)"
  using derive_rounds_ok derive_rounds_range by blast

theorem sbox_rounds_range_witness:
  "\<exists>n. derive_rounds \<lparr>sha256 = of_nat \<circ> length, sha512 = of_nat \<circ> length\<rparr> [1] id = Inr n \<and>
        5 \<le> n \<and> n \<le> 12"
proof -
  have k: "[1 :: byte] \<noteq> []" by simp
  show ?thesis
    using sbox_rounds_range [of "[1]" "\<lparr>sha256 = of_nat \<circ> length, sha512 = of_nat \<circ> length\<rparr>" id]
      k by blast
qed

lemma digest512_head: "\<exists>bs. digest512 H m = ucast (drop_bit 504 (sha512 H m)) # bs"
  by (simp add: digest512_def be_bytes_def upt_conv_Cons)

lemma top_byte_ones: "(ucast (drop_bit 504 (- 1 :: 512 word)) :: byte) AND 0x07 = 7"
  by (simp add: bit_eq_iff bit_simps) 

text \<open>
  With a SHA-512 whose digests start with a byte that has its three low bits set, the
  derivation makes 12 passes, outside the interval that C7 states.
\<close>

theorem sbox_rounds_counterexample:
  "derive_rounds \<lparr>sha256 = (\<lambda>m. 0), sha512 = (\<lambda>m. - 1)\<rparr> [1] id = Inr 12"
proof -
  let ?H = "\<lparr>sha256 = (\<lambda>m. 0), sha512 = (\<lambda>m. - 1)\<rparr>"
  have k: "[1 :: byte] \<noteq> []" by simp
  from derive_blob_ok [OF k, of ?H id] obtain state final g' where
    b: "derive_blob ?H [1] id = Inr (state, final, g')" by blast
  obtain e where e: "fst (sbox_seed ?H [1] state final g') = digest512 ?H e"
    using fst_sbox_seed by blast
  obtain bs where d: "digest512 ?H e = ucast (drop_bit 504 (sha512 ?H e)) # bs"
    using digest512_head by blast
  have s: "sha512 ?H e = - 1" by simp
  have "sbox_rounds (digest512 ?H e) = Inr 12"
    unfolding d sbox_rounds_Cons s top_byte_ones by simp
  then show ?thesis
    unfolding derive_rounds_def b ebind_Inr prod.case e .
qed

lemma utf8_char_ok:
  assumes "\<not> (0xD800 \<le> c \<and> c < 0xE000)"
  shows "\<exists>b. utf8_char c = Inr b \<and> b \<noteq> []"
  using assms by (simp add: utf8_char_def)

lemma encode_utf8_ok:
  assumes "\<forall>c\<in>set key. \<not> (0xD800 \<le> c \<and> c < 0xE000)"
  shows "\<exists>bs. encode_utf8 key = Inr bs \<and> (key \<noteq> [] \<longrightarrow> bs \<noteq> [])"
  using assms
proof (induction key)
  case Nil
  show ?case by simp
next
  case (Cons c cs)
  then obtain bs where bs: "encode_utf8 cs = Inr bs" by auto
  from Cons.prems have "\<not> (0xD800 \<le> c \<and> c < 0xE000)" by simp
  from utf8_char_ok [OF this] obtain b where b: "utf8_char c = Inr b" "b \<noteq> []" by blast
  have "encode_utf8 (c # cs) = Inr (b @ bs)"
    unfolding encode_utf8.simps b(1) bs ebind_Inr ..
  with b(2) show ?case by simp
qed

lemma generate_empty: "generate_stuff_h H [] g = Inr None"
  by (simp add: generate_stuff_h_def)

text \<open>
  C5 (as the code has it). For a non-empty passphrase without surrogate code points the
  derivation completes and gives a secret blob and an sbox. For the empty passphrase
  \<open>generate_stuff_h\<close> returns at its guard and nothing is derived.
\<close>

theorem generate_completes:
  "(key \<noteq> [] \<and> (\<forall>c\<in>set key. \<not> (0xD800 \<le> c \<and> c < 0xE000)) \<longrightarrow>
      (\<exists>blob sbox. generate_stuff_h H key g = Inr (Some (blob, sbox)))) \<and>
   generate_stuff_h H [] g = Inr None"
proof (intro conjI impI)
  assume a: "key \<noteq> [] \<and> (\<forall>c\<in>set key. \<not> (0xD800 \<le> c \<and> c < 0xE000))"
  with encode_utf8_ok [of key] obtain bs where
    e: "encode_utf8 key = Inr bs" and n: "bs \<noteq> []" by blast
  from derive_ok [OF n, of H g] obtain blob sbox where
    d: "derive H bs g = Inr (blob, sbox)" by blast
  have "generate_stuff_h H key g = Inr (Some (blob, sbox))"
    using a unfolding generate_stuff_h_def e ebind_Inr d by simp
  then show "\<exists>blob sbox. generate_stuff_h H key g = Inr (Some (blob, sbox))" by blast
next
  show "generate_stuff_h H [] g = Inr None" by (rule generate_empty)
qed

theorem generate_completes_witness:
  "\<exists>blob sbox.
     generate_stuff_h \<lparr>sha256 = of_nat \<circ> length, sha512 = of_nat \<circ> length\<rparr> [0x6B, 0xE9] id =
       Inr (Some (blob, sbox))"
proof -
  have k: "[0x6B, 0xE9 :: nat] \<noteq> [] \<and>
      (\<forall>c\<in>set [0x6B, 0xE9 :: nat]. \<not> (0xD800 \<le> c \<and> c < 0xE000))" by simp
  show ?thesis
    using generate_completes [of "[0x6B, 0xE9]"
        "\<lparr>sha256 = of_nat \<circ> length, sha512 = of_nat \<circ> length\<rparr>" id] k by blast
qed

text \<open>
  The empty passphrase produces no secret blob and no sbox.
\<close>

theorem generate_empty_counterexample:
  "\<not> (\<exists>blob sbox.
        generate_stuff_h \<lparr>sha256 = of_nat \<circ> length, sha512 = of_nat \<circ> length\<rparr> [] id =
          Inr (Some (blob, sbox)))"
  by (simp add: generate_stuff_h_def)

section \<open>Proofs: the patcher\<close>

lemma first_occurrence_Some:
  "first_occurrence sub t = Some i \<Longrightarrow> prefix sub (drop i t)"
proof (induction t arbitrary: i)
  case Nil
  then show ?case by (simp split: if_splits)
next
  case (Cons c cs)
  show ?case
  proof (cases "prefix sub (c # cs)")
    case True
    with Cons.prems show ?thesis by simp
  next
    case False
    with Cons.prems obtain j where "first_occurrence sub cs = Some j" "i = Suc j"
      by auto
    with Cons.IH show ?thesis by simp
  qed
qed

lemma first_occurrence_None: "first_occurrence sub t = None \<longleftrightarrow> \<not> sublist sub t"
  by (induction t) (auto simp: sublist_Cons_right)

lemma find_str_absent: "\<not> sublist sub text \<Longrightarrow> find_str text sub 0 = - 1"
  using first_occurrence_None [of sub "text"] by (simp add: find_str_def)

lemma find_str_char:
  assumes "find_str text [c] start \<noteq> - 1"
  shows "nat (find_str text [c] start) < length text \<and>
         text ! nat (find_str text [c] start) = c"
proof -
  from assms obtain i where i: "first_occurrence [c] (drop start text) = Some i"
    and r: "find_str text [c] start = int (start + i)"
    by (auto simp: find_str_def split: if_splits option.splits)
  from first_occurrence_Some [OF i] have "prefix [c] (drop (start + i) text)"
    by (simp add: add.commute)
  then obtain zs where z: "drop (start + i) text = c # zs" by (auto simp: prefix_def)
  then have "start + i < length text"
    by (metis drop_all list.distinct(1) not_le)
  moreover from z have "text ! (start + i) = c"
    by (metis Cons_nth_drop_Suc calculation list.inject)
  ultimately show ?thesis unfolding r by (simp only: nat_int)
qed

lemma brace_loop_result:
  "brace_loop text depth i = - 1 \<or>
   (0 \<le> brace_loop text depth i \<and> nat (brace_loop text depth i) < length text \<and>
    text ! nat (brace_loop text depth i) = CHR ''}'')"
proof (induction "text" depth i rule: brace_loop.induct)
  case (1 t depth i)
  show ?case
  proof (cases "i < length t")
    case False
    then show ?thesis by (subst brace_loop.simps, subst (2) brace_loop.simps,
          subst (3) brace_loop.simps, subst (4) brace_loop.simps) simp
  next
    case len: True
    show ?thesis
    proof (cases "t ! i = CHR ''{''")
      case True
      have eq: "brace_loop t depth i = brace_loop t (depth + 1) (i + 1)"
        using len True by (subst brace_loop.simps) simp
      show ?thesis unfolding eq using "1.IH"(1) [OF len True] .
    next
      case nopen: False
      show ?thesis
      proof (cases "t ! i = CHR ''}''")
        case False
        have eq: "brace_loop t depth i = brace_loop t depth (i + 1)"
          using len nopen False by (subst brace_loop.simps) simp
        show ?thesis unfolding eq using "1.IH"(3) [OF len nopen False] .
      next
        case close: True
        show ?thesis
        proof (cases "depth - 1 = 0")
          case True
          have eq: "brace_loop t depth i = int i"
            using len nopen close True by (subst brace_loop.simps) simp
          show ?thesis unfolding eq using len close by simp
        next
          case False
          have eq: "brace_loop t depth i = brace_loop t (depth - 1) (i + 1)"
            using len nopen close False by (subst brace_loop.simps) simp
          show ?thesis unfolding eq using "1.IH"(2) [OF len nopen close False] .
        qed
      qed
    qed
  qed
qed

lemma find_matching_brace_result:
  assumes "find_matching_brace text open_pos \<noteq> - 1"
  shows "nat (find_matching_brace text open_pos) < length text \<and>
         text ! nat (find_matching_brace text open_pos) = CHR ''}''"
  using assms brace_loop_result [of "text" 1 "nat (open_pos + 1)"]
  by (simp add: find_matching_brace_def)

lemma insert_outside:
  assumes "t = a @ s @ b" "p \<le> length a \<or> length a + length s \<le> p"
  shows "sublist s (take p t @ x @ drop p t)"
proof -
  from assms(2) show ?thesis
  proof
    assume "p \<le> length a"
    then have "take p t @ x @ drop p t = (take p a @ x @ drop p a) @ s @ b"
      by (simp add: assms(1))
    then show ?thesis by (metis sublist_appendI)
  next
    assume "length a + length s \<le> p"
    then have "take p t @ x @ drop p t =
        a @ s @ (take (p - length a - length s) b @ x @ drop (p - length a - length s) b)"
      by (simp add: assms(1))
    then show ?thesis by (metis sublist_appendI)
  qed
qed

lemma insert_keeps_before:
  assumes "sublist s t" "p < length t \<longrightarrow> t ! p \<notin> set s"
  shows "sublist s (take p t @ x @ drop p t)"
proof -
  from assms(1) obtain a b where t: "t = a @ s @ b" by (auto simp: sublist_def)
  show ?thesis
  proof (cases "p \<le> length a \<or> length a + length s \<le> p")
    case True
    then show ?thesis by (rule insert_outside [OF t])
  next
    case False
    then have l: "length a < p" "p < length a + length s" by auto
    have pl: "p - length a < length s" using l by linarith
    have "t ! p = s ! (p - length a)"
      using l pl by (simp add: t nth_append)
    then have "t ! p \<in> set s" using pl by simp
    moreover have "p < length t" using l by (simp add: t)
    ultimately show ?thesis using assms(2) by simp
  qed
qed

lemma insert_keeps_after:
  assumes "sublist s t" "0 < p \<longrightarrow> p \<le> length t \<longrightarrow> t ! (p - 1) \<notin> set (butlast s)"
  shows "sublist s (take p t @ x @ drop p t)"
proof -
  from assms(1) obtain a b where t: "t = a @ s @ b" by (auto simp: sublist_def)
  show ?thesis
  proof (cases "p \<le> length a \<or> length a + length s \<le> p")
    case True
    then show ?thesis by (rule insert_outside [OF t])
  next
    case False
    then have l: "length a < p" "p < length a + length s" by auto
    define k where "k = p - 1 - length a"
    have k: "k < length s - 1" "p - 1 = length a + k" using l by (simp_all add: k_def)
    have ks: "k < length s" using k(1) by linarith
    have "t ! (p - 1) = s ! k"
      using k ks by (simp add: t nth_append)
    also have "s ! k = butlast s ! k" using k(1) by (simp add: nth_butlast)
    finally have "t ! (p - 1) \<in> set (butlast s)" using k(1) by simp
    moreover have "0 < p" "p \<le> length t" using l by (simp_all add: t)
    ultimately show ?thesis using assms(2) by simp
  qed
qed


lemma no_brace_entry: "CHR ''}'' \<notin> set ENTRY_TO_ADD"
  by (simp add: ENTRY_TO_ADD_def)

lemma no_brace_declare: "CHR ''}'' \<notin> set DECLARE_LINE"
  by (simp add: DECLARE_LINE_def)

lemma no_newline_entry: "CHR ''\<newline>'' \<notin> set (butlast ENTRY_TO_ADD)"
  by (simp add: ENTRY_TO_ADD_def)

lemma patch_entry_cases:
  assumes "patch_entry text = Inr text1"
  obtains "text1 = text" "sublist ENTRY_TO_ADD text"
  | p where "text1 = take p text @ ENTRY_TO_ADD @ drop p text" "p < length text"
      "text ! p = CHR ''}''"
proof (cases "sublist ENTRY_TO_ADD text")
  case True
  with assms have "text1 = text" by (simp add: patch_entry_def)
  with True that(1) show ?thesis by blast
next
  case False
  define ob where "ob = find_str text ''{''
      (nat (find_str text ''static const JSCFunctionListEntry gumjs_script_entries[] ='' 0))"
  define cb where "cb = find_matching_brace text ob"
  from assms False have cb: "cb \<noteq> - 1" and t1: "text1 = insert_at cb ENTRY_TO_ADD text"
    by (auto simp: patch_entry_def Let_def ob_def cb_def split: if_splits)
  from find_matching_brace_result [of "text" ob] cb
  have "nat cb < length text" "text ! nat cb = CHR ''}''" by (simp_all add: cb_def)
  with t1 that(2) [of "nat cb"] show ?thesis by (simp add: insert_at_def)
qed

lemma patch_entry_has:
  assumes "patch_entry text = Inr text1"
  shows "sublist ENTRY_TO_ADD text1"
  using assms by (rule patch_entry_cases) (auto simp: sublist_def)

lemma patch_entry_keeps:
  assumes "patch_entry text = Inr text1" "sublist s text" "CHR ''}'' \<notin> set s"
  shows "sublist s text1"
  using assms(1)
proof (rule patch_entry_cases)
  assume "text1 = text"
  with assms(2) show ?thesis by simp
next
  fix p
  assume p: "text1 = take p text @ ENTRY_TO_ADD @ drop p text" "p < length text"
    "text ! p = CHR ''}''"
  then have "p < length text \<longrightarrow> text ! p \<notin> set s" using assms(3) by simp
  from insert_keeps_before [OF assms(2) this] show ?thesis by (simp add: p(1))
qed

lemma patch_declaration_cases:
  assumes "patch_declaration text = Inr text2"
  obtains "text2 = text" "sublist DECLARE_LINE text"
  | p where "text2 = take p text @ DECLARE_LINE @ drop p text"
      "0 < p \<longrightarrow> p \<le> length text \<and> text ! (p - 1) = CHR ''\<newline>''"
proof (cases "sublist DECLARE_LINE text")
  case True
  with assms have "text2 = text" by (simp add: patch_declaration_def)
  with True that(1) show ?thesis by blast
next
  case False
  define idx where
    "idx = find_str text ''GUMJS_DECLARE_FUNCTION (gumjs_script_unbind_weak)'' 0"
  define q where "q = find_str text ''\<newline>'' (nat idx)"
  from assms False have t2: "text2 = insert_at (q + 1) DECLARE_LINE text"
    by (auto simp: patch_declaration_def Let_def idx_def q_def split: if_splits)
  have "0 < nat (q + 1) \<longrightarrow>
      nat (q + 1) \<le> length text \<and> text ! (nat (q + 1) - 1) = CHR ''\<newline>''"
  proof
    assume "0 < nat (q + 1)"
    then have q0: "0 \<le> q" by simp
    then have "q \<noteq> - 1" by simp
    from find_str_char [of "text" "CHR ''\<newline>''" "nat idx"] this
    have "nat q < length text" "text ! nat q = CHR ''\<newline>''" by (simp_all add: q_def)
    moreover have "nat (q + 1) = nat q + 1" using q0 by simp
    ultimately show "nat (q + 1) \<le> length text \<and> text ! (nat (q + 1) - 1) = CHR ''\<newline>''"
      by simp
  qed
  with t2 that(2) [of "nat (q + 1)"] show ?thesis by (simp add: insert_at_def)
qed

lemma patch_declaration_has:
  assumes "patch_declaration text = Inr text2"
  shows "sublist DECLARE_LINE text2"
  using assms by (rule patch_declaration_cases) (auto simp: sublist_def)

lemma patch_declaration_keeps:
  assumes "patch_declaration text = Inr text2" "sublist s text"
    "CHR ''\<newline>'' \<notin> set (butlast s)"
  shows "sublist s text2"
  using assms(1)
proof (rule patch_declaration_cases)
  assume "text2 = text"
  with assms(2) show ?thesis by simp
next
  fix p
  assume p: "text2 = take p text @ DECLARE_LINE @ drop p text"
    "0 < p \<longrightarrow> p \<le> length text \<and> text ! (p - 1) = CHR ''\<newline>''"
  then have "0 < p \<longrightarrow> p \<le> length text \<longrightarrow> text ! (p - 1) \<notin> set (butlast s)"
    using assms(3) by auto
  from insert_keeps_after [OF assms(2) this] show ?thesis by (simp add: p(1))
qed

lemma patch_implementation_cases:
  assumes "patch_implementation function_impl text = Inr text3"
  obtains "text3 = text"
      "sublist ''GUMJS_DEFINE_FUNCTION (gumjs_script_load_bytecode)'' text"
  | p where
      "text3 = take p text @ (''\<newline>\<newline>'' @ function_impl @ ''\<newline>'') @ drop p text"
      "0 < p" "p \<le> length text" "text ! (p - 1) = CHR ''}''"
proof (cases "sublist ''GUMJS_DEFINE_FUNCTION (gumjs_script_load_bytecode)'' text")
  case True
  with assms have "text3 = text" by (simp add: patch_implementation_def)
  with True that(1) show ?thesis by blast
next
  case False
  define ob where "ob = find_str text ''{''
      (nat (find_str text ''GUMJS_DEFINE_FUNCTION (gumjs_script_unbind_weak)'' 0))"
  define cb where "cb = find_matching_brace text ob"
  from assms False have cb: "cb \<noteq> - 1"
    and t3: "text3 = insert_at (cb + 1) (''\<newline>\<newline>'' @ function_impl @ ''\<newline>'') text"
    by (auto simp: patch_implementation_def Let_def ob_def cb_def split: if_splits)
  from find_matching_brace_result [of "text" ob] cb
  have r: "nat cb < length text" "text ! nat cb = CHR ''}''" by (simp_all add: cb_def)
  from brace_loop_result [of "text" 1 "nat (ob + 1)"] cb have "0 \<le> cb"
    by (auto simp: cb_def find_matching_brace_def)
  then have n: "nat (cb + 1) = nat cb + 1" by simp
  have "0 < nat (cb + 1)" "nat (cb + 1) \<le> length text" "text ! (nat (cb + 1) - 1) = CHR ''}''"
    using r by (simp_all add: n)
  with t3 that(2) [of "nat (cb + 1)"] show ?thesis by (simp add: insert_at_def)
qed

lemma patch_implementation_has:
  assumes "patch_implementation function_impl text = Inr text3"
    "sublist ''GUMJS_DEFINE_FUNCTION (gumjs_script_load_bytecode)'' function_impl"
  shows "sublist ''GUMJS_DEFINE_FUNCTION (gumjs_script_load_bytecode)'' text3"
  using assms(1)
proof (rule patch_implementation_cases)
  assume "text3 = text"
    "sublist ''GUMJS_DEFINE_FUNCTION (gumjs_script_load_bytecode)'' text"
  then show ?thesis by simp
next
  fix p
  assume p: "text3 = take p text @ (''\<newline>\<newline>'' @ function_impl @ ''\<newline>'') @ drop p text"
  from assms(2) obtain a b where
    "function_impl = a @ ''GUMJS_DEFINE_FUNCTION (gumjs_script_load_bytecode)'' @ b"
    unfolding sublist_def by blast
  then have "text3 = (take p text @ ''\<newline>\<newline>'' @ a) @
      ''GUMJS_DEFINE_FUNCTION (gumjs_script_load_bytecode)'' @ (b @ ''\<newline>'' @ drop p text)"
    by (simp add: p)
  then show ?thesis unfolding sublist_def by blast
qed

lemma patch_implementation_keeps:
  assumes "patch_implementation function_impl text = Inr text3" "sublist s text"
    "CHR ''}'' \<notin> set (butlast s)"
  shows "sublist s text3"
  using assms(1)
proof (rule patch_implementation_cases)
  assume "text3 = text"
  with assms(2) show ?thesis by simp
next
  fix p
  assume p: "text3 = take p text @ (''\<newline>\<newline>'' @ function_impl @ ''\<newline>'') @ drop p text"
    "text ! (p - 1) = CHR ''}''"
  then have "0 < p \<longrightarrow> p \<le> length text \<longrightarrow> text ! (p - 1) \<notin> set (butlast s)"
    using assms(3) by auto
  from insert_keeps_after [OF assms(2) this] show ?thesis by (simp only: p(1))
qed

lemma head_prefix:
  "prefix (''\<newline>'' @ ''GUMJS_DEFINE_FUNCTION (gumjs_script_load_bytecode)'')
     build_function_head"
  by (simp add: build_function_head_def)

lemma build_function_marker:
  "sublist ''GUMJS_DEFINE_FUNCTION (gumjs_script_load_bytecode)'' (build_function variant_body)"
proof -
  from head_prefix obtain r where
    "build_function_head =
       (''\<newline>'' @ ''GUMJS_DEFINE_FUNCTION (gumjs_script_load_bytecode)'') @ r"
    unfolding prefix_def by blast
  then have "build_function variant_body =
      ''\<newline>'' @ ''GUMJS_DEFINE_FUNCTION (gumjs_script_load_bytecode)'' @
        (r @ variant_body @ lstrip_nl build_function_tail)"
    by (simp add: build_function_def)
  then show ?thesis unfolding sublist_def by blast
qed

lemma detect_variant_Inr:
  "(\<exists>v. detect_variant text = Inr v) \<longleftrightarrow> sublist ''gum_es_asset_new'' text"
  using take_contains_new [of "text"] by (auto simp: detect_variant_def)

lemma patch_entry_done: "sublist ENTRY_TO_ADD text \<Longrightarrow> patch_entry text = Inr text"
  by (simp add: patch_entry_def)

lemma patch_declaration_done: "sublist DECLARE_LINE text \<Longrightarrow> patch_declaration text = Inr text"
  by (simp add: patch_declaration_def)

lemma patch_implementation_done:
  "sublist ''GUMJS_DEFINE_FUNCTION (gumjs_script_load_bytecode)'' text \<Longrightarrow>
   patch_implementation function_impl text = Inr text"
  by (simp add: patch_implementation_def)

lemma main_stages:
  assumes "main text = Inr text3"
  obtains variant text1 text2 where
    "detect_variant text = Inr variant"
    "patch_entry text = Inr text1"
    "patch_declaration text1 = Inr text2"
    "patch_implementation
       (if variant = ''1'' then build_function FUNC_BODY_VARIANT_1
        else build_function FUNC_BODY_VARIANT_2) text2 = Inr text3"
  using assms unfolding main_def Let_def ebind_eq_Inr by blast

lemma main_result:
  assumes "main text = Inr text3"
  shows "sublist ''gum_es_asset_new'' text3 \<and> sublist ENTRY_TO_ADD text3 \<and>
         sublist DECLARE_LINE text3 \<and>
         sublist ''GUMJS_DEFINE_FUNCTION (gumjs_script_load_bytecode)'' text3"
  using assms
proof (rule main_stages)
  fix variant text1 text2
  let ?f = "if variant = ''1'' then build_function FUNC_BODY_VARIANT_1
            else build_function FUNC_BODY_VARIANT_2"
  assume v: "detect_variant text = Inr variant"
    and p1: "patch_entry text = Inr text1"
    and p2: "patch_declaration text1 = Inr text2"
    and p3: "patch_implementation ?f text2 = Inr text3"
  have n0: "sublist ''gum_es_asset_new'' text" using v detect_variant_Inr by blast
  have n1: "sublist ''gum_es_asset_new'' text1"
    by (rule patch_entry_keeps [OF p1 n0]) simp
  have n2: "sublist ''gum_es_asset_new'' text2"
    by (rule patch_declaration_keeps [OF p2 n1]) simp
  have n3: "sublist ''gum_es_asset_new'' text3"
    by (rule patch_implementation_keeps [OF p3 n2]) simp
  have e1: "sublist ENTRY_TO_ADD text1" by (rule patch_entry_has [OF p1])
  have e2: "sublist ENTRY_TO_ADD text2"
    by (rule patch_declaration_keeps [OF p2 e1 no_newline_entry])
  have e3: "sublist ENTRY_TO_ADD text3"
    by (rule patch_implementation_keeps [OF p3 e2]) (use no_brace_entry in_set_butlastD in fast)
  have d2: "sublist DECLARE_LINE text2" by (rule patch_declaration_has [OF p2])
  have d3: "sublist DECLARE_LINE text3"
    by (rule patch_implementation_keeps [OF p3 d2]) (use no_brace_declare in_set_butlastD in fast)
  have "sublist ''GUMJS_DEFINE_FUNCTION (gumjs_script_load_bytecode)'' ?f"
    by (simp add: build_function_marker)
  from patch_implementation_has [OF p3 this] n3 e3 d3 show ?thesis by blast
qed

lemma main_done:
  assumes "sublist ''gum_es_asset_new'' text" "sublist ENTRY_TO_ADD text"
    "sublist DECLARE_LINE text"
    "sublist ''GUMJS_DEFINE_FUNCTION (gumjs_script_load_bytecode)'' text"
  shows "main text = Inr text"
proof -
  from assms(1) obtain v where "detect_variant text = Inr v"
    using detect_variant_Inr by blast
  then show ?thesis
    unfolding main_def Let_def
    by (simp add: patch_entry_done [OF assms(2)] patch_declaration_done [OF assms(3)]
        patch_implementation_done [OF assms(4)])
qed

lemma main_fixpoint: "main text = Inr text3 \<Longrightarrow> main text3 = Inr text3"
  using main_result [of "text" text3] main_done [of text3] by blast

lemma run_patcher_idem: "run_patcher (run_patcher file) = run_patcher file"
proof (cases "main file")
  case (Inl e)
  then show ?thesis by (simp add: run_patcher_def)
next
  case (Inr text3)
  from main_fixpoint [OF this] Inr show ?thesis by (simp add: run_patcher_def)
qed

text \<open>
  C2. Running the patcher on its own output changes nothing: the text written by a run
  holds the entry literal, the declaration line and the marker of the defined function,
  so a second run finds all three and writes the same text back. A run that dies writes
  nothing, and so does the run after it.
\<close>

theorem patcher_idempotent:
  "run_patcher (run_patcher file) = run_patcher file \<and>
   (\<forall>text'. main file = Inr text' \<longrightarrow>
      main text' = Inr text' \<and> sublist ENTRY_TO_ADD text' \<and> sublist DECLARE_LINE text' \<and>
      sublist ''GUMJS_DEFINE_FUNCTION (gumjs_script_load_bytecode)'' text')"
  using run_patcher_idem main_fixpoint main_result by blast

text \<open>
  C6 (as the code has it). Variant detection comes first: a buffer without a variant marker
  ends the run with the variant error, whatever anchors it lacks. With a variant marker, a
  buffer that has neither the entry literal nor the entry-list anchor ends the run with
  \<open>gumjs_script_entries not found\<close>; the declaration patch and the implementation patch
  end with their anchor errors on a buffer that has neither their detection literal nor
  their anchor. A run that ends with an error leaves the file as it was.
\<close>

theorem patcher_missing_anchor:
  "(\<not> sublist ''gum_es_asset_new'' text \<longrightarrow>
      main text = Inl (Fatal ''Cannot detect allocator variant in gumquickcore.c'')) \<and>
   (sublist ''gum_es_asset_new'' text \<and> \<not> sublist ENTRY_TO_ADD text \<and>
    \<not> sublist ''static const JSCFunctionListEntry gumjs_script_entries[] ='' text \<longrightarrow>
      main text = Inl (Fatal ''gumjs_script_entries not found'')) \<and>
   (\<forall>text1. sublist ''gum_es_asset_new'' text \<and> patch_entry text = Inr text1 \<and>
      \<not> sublist DECLARE_LINE text1 \<and>
      \<not> sublist ''GUMJS_DECLARE_FUNCTION (gumjs_script_unbind_weak)'' text1 \<longrightarrow>
      main text = Inl (Fatal ''Declaration anchor not found'')) \<and>
   (\<forall>text1 text2. sublist ''gum_es_asset_new'' text \<and> patch_entry text = Inr text1 \<and>
      patch_declaration text1 = Inr text2 \<and>
      \<not> sublist ''GUMJS_DEFINE_FUNCTION (gumjs_script_load_bytecode)'' text2 \<and>
      \<not> sublist ''GUMJS_DEFINE_FUNCTION (gumjs_script_unbind_weak)'' text2 \<longrightarrow>
      main text = Inl (Fatal ''Function anchor not found'')) \<and>
   (\<forall>e. main text = Inl e \<longrightarrow> run_patcher text = text)"
proof (intro conjI impI allI)
  assume "\<not> sublist ''gum_es_asset_new'' text"
  then have "detect_variant text =
      Inl (Fatal ''Cannot detect allocator variant in gumquickcore.c'')"
    using take_contains_new [of "text"] by (auto simp: detect_variant_def)
  then show "main text = Inl (Fatal ''Cannot detect allocator variant in gumquickcore.c'')"
    by (simp add: main_def)
next
  assume a: "sublist ''gum_es_asset_new'' text \<and> \<not> sublist ENTRY_TO_ADD text \<and>
    \<not> sublist ''static const JSCFunctionListEntry gumjs_script_entries[] ='' text"
  then obtain v where v: "detect_variant text = Inr v" using detect_variant_Inr by blast
  from a have "find_str text ''static const JSCFunctionListEntry gumjs_script_entries[] ='' 0
      = - 1" by (simp add: find_str_absent)
  with a have "patch_entry text = Inl (Fatal ''gumjs_script_entries not found'')"
    by (simp add: patch_entry_def)
  with v show "main text = Inl (Fatal ''gumjs_script_entries not found'')"
    by (simp add: main_def Let_def)
next
  fix text1
  assume a: "sublist ''gum_es_asset_new'' text \<and> patch_entry text = Inr text1 \<and>
    \<not> sublist DECLARE_LINE text1 \<and>
    \<not> sublist ''GUMJS_DECLARE_FUNCTION (gumjs_script_unbind_weak)'' text1"
  then obtain v where v: "detect_variant text = Inr v" using detect_variant_Inr by blast
  from a have "find_str text1 ''GUMJS_DECLARE_FUNCTION (gumjs_script_unbind_weak)'' 0 = - 1"
    by (simp add: find_str_absent)
  with a have "patch_declaration text1 = Inl (Fatal ''Declaration anchor not found'')"
    by (simp add: patch_declaration_def)
  with v a show "main text = Inl (Fatal ''Declaration anchor not found'')"
    by (simp add: main_def Let_def)
next
  fix text1 text2
  assume a: "sublist ''gum_es_asset_new'' text \<and> patch_entry text = Inr text1 \<and>
    patch_declaration text1 = Inr text2 \<and>
    \<not> sublist ''GUMJS_DEFINE_FUNCTION (gumjs_script_load_bytecode)'' text2 \<and>
    \<not> sublist ''GUMJS_DEFINE_FUNCTION (gumjs_script_unbind_weak)'' text2"
  then obtain v where v: "detect_variant text = Inr v" using detect_variant_Inr by blast
  from a have "find_str text2 ''GUMJS_DEFINE_FUNCTION (gumjs_script_unbind_weak)'' 0 = - 1"
    by (simp add: find_str_absent)
  with a have "\<And>f. patch_implementation f text2 = Inl (Fatal ''Function anchor not found'')"
    by (simp add: patch_implementation_def)
  with v a show "main text = Inl (Fatal ''Function anchor not found'')"
    by (simp add: main_def Let_def)
next
  fix e
  assume "main text = Inl e"
  then show "run_patcher text = text" by (simp add: run_patcher_def)
qed

lemma sample_runs: "\<exists>t. main sample_source = Inr t"
proof -
  have "case main sample_source of Inl e \<Rightarrow> False | Inr t \<Rightarrow> True" by code_simp
  then show ?thesis by (cases "main sample_source") simp_all
qed

theorem patcher_idempotent_witness:
  "\<exists>text'. main sample_source = Inr text' \<and> main text' = Inr text' \<and>
     sublist ENTRY_TO_ADD text' \<and> sublist DECLARE_LINE text' \<and>
     sublist ''GUMJS_DEFINE_FUNCTION (gumjs_script_load_bytecode)'' text' \<and>
     run_patcher (run_patcher sample_source) = run_patcher sample_source"
  using patcher_idempotent [of sample_source] sample_runs by blast

text \<open>
  A buffer with neither the entry literal nor the entry-list anchor, on which the run does
  not end with an anchor error: it ends with the variant error.
\<close>

theorem patcher_missing_anchor_counterexample:
  "\<not> sublist ENTRY_TO_ADD ''int x;\<newline>'' \<and>
   \<not> sublist ''static const JSCFunctionListEntry gumjs_script_entries[] ='' ''int x;\<newline>'' \<and>
   main ''int x;\<newline>'' = Inl (Fatal ''Cannot detect allocator variant in gumquickcore.c'')"
  by code_simp

theorem patcher_missing_anchor_witness:
  "main ''int x;\<newline>'' = Inl (Fatal ''Cannot detect allocator variant in gumquickcore.c'') \<and>
   main ''gum_es_asset_new (x);\<newline>'' = Inl (Fatal ''gumjs_script_entries not found'') \<and>
   main entries_only_source = Inl (Fatal ''Declaration anchor not found'') \<and>
   main no_function_source = Inl (Fatal ''Function anchor not found'') \<and>
   run_patcher no_function_source = no_function_source"
proof -
  have a: "\<not> sublist ''gum_es_asset_new'' ''int x;\<newline>''" by code_simp
  have b: "sublist ''gum_es_asset_new'' ''gum_es_asset_new (x);\<newline>'' \<and>
      \<not> sublist ENTRY_TO_ADD ''gum_es_asset_new (x);\<newline>'' \<and>
      \<not> sublist ''static const JSCFunctionListEntry gumjs_script_entries[] =''
          ''gum_es_asset_new (x);\<newline>''" by code_simp
  have c0: "case patch_entry entries_only_source of Inl e \<Rightarrow> False
      | Inr text1 \<Rightarrow> sublist ''gum_es_asset_new'' entries_only_source \<and>
          \<not> sublist DECLARE_LINE text1 \<and>
          \<not> sublist ''GUMJS_DECLARE_FUNCTION (gumjs_script_unbind_weak)'' text1"
    by code_simp
  obtain t1 where c: "sublist ''gum_es_asset_new'' entries_only_source \<and>
      patch_entry entries_only_source = Inr t1 \<and> \<not> sublist DECLARE_LINE t1 \<and>
      \<not> sublist ''GUMJS_DECLARE_FUNCTION (gumjs_script_unbind_weak)'' t1"
  proof (cases "patch_entry entries_only_source")
    case (Inl e)
    with c0 show ?thesis by simp
  next
    case (Inr t)
    with c0 that [of t] show ?thesis by simp
  qed
  have d0: "case patch_entry no_function_source of Inl e \<Rightarrow> False
      | Inr text1 \<Rightarrow>
          (case patch_declaration text1 of Inl e \<Rightarrow> False
           | Inr text2 \<Rightarrow> sublist ''gum_es_asset_new'' no_function_source \<and>
               \<not> sublist ''GUMJS_DEFINE_FUNCTION (gumjs_script_load_bytecode)'' text2 \<and>
               \<not> sublist ''GUMJS_DEFINE_FUNCTION (gumjs_script_unbind_weak)'' text2)"
    by code_simp
  obtain u1 u2 where d: "sublist ''gum_es_asset_new'' no_function_source \<and>
      patch_entry no_function_source = Inr u1 \<and> patch_declaration u1 = Inr u2 \<and>
      \<not> sublist ''GUMJS_DEFINE_FUNCTION (gumjs_script_load_bytecode)'' u2 \<and>
      \<not> sublist ''GUMJS_DEFINE_FUNCTION (gumjs_script_unbind_weak)'' u2"
  proof (cases "patch_entry no_function_source")
    case (Inl e)
    with d0 show ?thesis by simp
  next
    case u: (Inr u)
    show ?thesis
    proof (cases "patch_declaration u")
      case (Inl e)
      with d0 u show ?thesis by simp
    next
      case (Inr v)
      with d0 u that [of u v] show ?thesis by simp
    qed
  qed
  have 1: "main ''int x;\<newline>'' =
      Inl (Fatal ''Cannot detect allocator variant in gumquickcore.c'')"
    using patcher_missing_anchor [of "''int x;\<newline>''"] a by (elim conjE) (erule mp)
  have 2: "main ''gum_es_asset_new (x);\<newline>'' = Inl (Fatal ''gumjs_script_entries not found'')"
    using patcher_missing_anchor [of "''gum_es_asset_new (x);\<newline>''"] b
    by (elim conjE) (erule mp, intro conjI)
  have 3: "main entries_only_source = Inl (Fatal ''Declaration anchor not found'')"
    using patcher_missing_anchor [of entries_only_source] c by (elim conjE) (erule allE, erule mp, intro conjI)
  have 4: "main no_function_source = Inl (Fatal ''Function anchor not found'')"
    using patcher_missing_anchor [of no_function_source] d by (elim conjE) (erule allE, erule allE, erule mp, intro conjI)
  have 5: "run_patcher no_function_source = no_function_source"
    using patcher_missing_anchor [of no_function_source] 4 by (elim conjE) (erule allE, erule mp)
  from 1 2 3 4 5 show ?thesis by (intro conjI)
qed

section \<open>Proofs: the shuffler\<close>




























end
